theory Spec2Isabelle
  imports Complex_Main
begin

section \<open>Data model\<close>

text \<open>
  The values that \<^verbatim>\<open>json.loads\<close> produces: \<^verbatim>\<open>None\<close>, \<^verbatim>\<open>bool\<close>, numbers, \<^verbatim>\<open>str\<close>,
  \<^verbatim>\<open>list\<close> and \<^verbatim>\<open>dict\<close>. A dict is its list of items in insertion order; its keys are
  strings. Python keeps the keys of a dict unique, which the theorems that count entries
  assume of their input (\<open>distinct (map fst kvs)\<close>). Numbers are rationals: an \<^verbatim>\<open>int\<close> or a
  finite \<^verbatim>\<open>float\<close>; the code only ever tests a number for truth (non-zero).
\<close>

datatype json =
    JNull
  | JBool bool
  | JNum rat
  | JStr string
  | JArr "json list"
  | JObj "(string \<times> json) list"

text \<open>The exceptions that the modelled code can raise.\<close>

datatype error = KeyError | TypeError | IndexError | SystemExit

section \<open>String methods\<close>

text \<open>
  A Python string is modelled by the list of its characters, a character beyond ASCII by
  the bytes of its UTF-8 encoding, in which no byte of an ASCII character occurs; counting,
  splitting at and replacing the dot and testing for the suffix \<^verbatim>\<open>url\<close> are the same
  on both.
\<close>

text \<open>\<^verbatim>\<open>s.count('.')\<close>\<close>

definition str_count :: "string \<Rightarrow> nat" where
  "str_count s = length (filter (\<lambda>c. c = CHR ''.'') s)"

text \<open>\<^verbatim>\<open>s.split('.')\<close>: the pieces between the dots; never the empty list.\<close>

fun str_split :: "string \<Rightarrow> string list" where
  "str_split [] = [[]]"
| "str_split (c # cs) =
     (if c = CHR ''.'' then [] # str_split cs
      else (case str_split cs of [] \<Rightarrow> [[c]] | w # ws \<Rightarrow> (c # w) # ws))"

text \<open>\<^verbatim>\<open>s.replace('.', '_')\<close>\<close>

definition str_replace :: "string \<Rightarrow> string" where
  "str_replace s = map (\<lambda>c. if c = CHR ''.'' then CHR ''_'' else c) s"

text \<open>\<^verbatim>\<open>s.endswith(suf)\<close>\<close>

definition str_endswith :: "string \<Rightarrow> string \<Rightarrow> bool" where
  "str_endswith s suf = (length suf \<le> length s \<and> drop (length s - length suf) s = suf)"

text \<open>
  \<^verbatim>\<open>s.lower()\<close> on the letters A to Z; every other character is left as it is. The code
  compares the result with \<^verbatim>\<open>'private'\<close> only, and no character outside A to Z lowers to
  one of its letters.
\<close>

definition lower_char :: "char \<Rightarrow> char" where
  "lower_char c =
     (case map_of (zip ''ABCDEFGHIJKLMNOPQRSTUVWXYZ'' ''abcdefghijklmnopqrstuvwxyz'') c of
        Some l \<Rightarrow> l
      | None \<Rightarrow> c)"

definition str_lower :: "string \<Rightarrow> string" where
  "str_lower s = map lower_char s"

section \<open>Subscripting\<close>

text \<open>
  \<^verbatim>\<open>d[k]\<close> with a string \<open>k\<close>: a dict raises KeyError when the key is absent; a list, a
  string, a number, a bool and None raise TypeError.
\<close>

fun dict_get :: "(string \<times> json) list \<Rightarrow> string \<Rightarrow> json option" where
  "dict_get [] k = None"
| "dict_get ((k', v) # kvs) k = (if k' = k then Some v else dict_get kvs k)"

definition subscript :: "json \<Rightarrow> string \<Rightarrow> error + json" where
  "subscript d k =
     (case d of
        JObj kvs \<Rightarrow> (case dict_get kvs k of Some v \<Rightarrow> Inr v | None \<Rightarrow> Inl KeyError)
      | _ \<Rightarrow> Inl TypeError)"

text \<open>\<^verbatim>\<open>keys[i]\<close> on a list: IndexError out of range.\<close>

definition list_index :: "'a list \<Rightarrow> nat \<Rightarrow> error + 'a" where
  "list_index xs i = (if i < length xs then Inr (xs ! i) else Inl IndexError)"

text \<open>\<^verbatim>\<open>d[keys[i]]\<close>, and the same applied to the result of an earlier subscript.\<close>

definition sub_key :: "json \<Rightarrow> string list \<Rightarrow> nat \<Rightarrow> error + json" where
  "sub_key d keys i =
     (case list_index keys i of Inl e \<Rightarrow> Inl e | Inr k \<Rightarrow> subscript d k)"

definition then_key :: "error + json \<Rightarrow> string list \<Rightarrow> nat \<Rightarrow> error + json" where
  "then_key r keys i = (case r of Inl e \<Rightarrow> Inl e | Inr d \<Rightarrow> sub_key d keys i)"

section \<open>nested\_json\_value\<close>

text \<open>
  \<^verbatim>\<open>try: retval = ... except (TypeError, KeyError): _settings.unknownfieldname.add(dot_fldname);
  retval = None\<close>. The set \<^verbatim>\<open>_settings.unknownfieldname\<close> is passed in and returned. Any
  other exception propagates.
\<close>

definition except_unknown ::
  "error + json \<Rightarrow> string \<Rightarrow> string set \<Rightarrow> error + (json \<times> string set)" where
  "except_unknown r dot_fldname unknownfieldname =
     (case r of
        Inr retval \<Rightarrow> Inr (retval, unknownfieldname)
      | Inl e \<Rightarrow>
          if e = TypeError \<or> e = KeyError
          then Inr (JNull, insert dot_fldname unknownfieldname)
          else Inl e)"

definition nested_json_value ::
  "json \<Rightarrow> string \<Rightarrow> string set \<Rightarrow> error + (json \<times> string set)" where
  "nested_json_value nested_dict dot_fldname unknownfieldname =
     (let depth = str_count dot_fldname + 1;
          keys = str_split dot_fldname
      in if depth = 1 then
           except_unknown (subscript nested_dict dot_fldname) dot_fldname unknownfieldname
         else if depth = 2 then
           except_unknown (then_key (sub_key nested_dict keys 0) keys 1)
             dot_fldname unknownfieldname
         else if depth = 3 then
           except_unknown (then_key (then_key (sub_key nested_dict keys 0) keys 1) keys 2)
             dot_fldname unknownfieldname
         else if depth = 4 then
           except_unknown
             (then_key (then_key (then_key (sub_key nested_dict keys 0) keys 1) keys 2) keys 3)
             dot_fldname unknownfieldname
         else
           except_unknown
             (then_key (then_key (then_key (then_key (sub_key nested_dict keys 0) keys 1) keys 2)
                keys 3) keys 4)
             dot_fldname unknownfieldname)"

text \<open>
  The resolver as the specification words it: walk the payload one segment at a time; a
  hop fails when the current value is not a mapping or the key is absent.
\<close>

fun resolve_spec :: "json \<Rightarrow> string list \<Rightarrow> json option" where
  "resolve_spec j [] = Some j"
| "resolve_spec j (k # ks) =
     (case j of
        JObj kvs \<Rightarrow> (case dict_get kvs k of Some v \<Rightarrow> resolve_spec v ks | None \<Rightarrow> None)
      | _ \<Rightarrow> None)"

section \<open>data\_fields\<close>

text \<open>
  \<^verbatim>\<open>values\<close> is an \<^verbatim>\<open>OrderedDict\<close>: its items in insertion order. \<^verbatim>\<open>values[k] = v\<close>
  replaces the value of a key that is present, in place, and appends a new key at the end;
  \<^verbatim>\<open>values.update(d)\<close> does so for every item of \<open>d\<close> in order.
\<close>

type_synonym odict = "(string \<times> json) list"

fun od_set :: "odict \<Rightarrow> string \<Rightarrow> json \<Rightarrow> odict" where
  "od_set [] k v = [(k, v)]"
| "od_set ((k', v') # kvs) k v =
     (if k' = k then (k, v) # kvs else (k', v') # od_set kvs k v)"

fun od_update :: "odict \<Rightarrow> (string \<times> json) list \<Rightarrow> odict" where
  "od_update values [] = values"
| "od_update values ((k, v) # d) = od_update (od_set values k v) d"

text \<open>Python's truth value of a decoded JSON value.\<close>

fun truthy :: "json \<Rightarrow> bool" where
  "truthy JNull = False"
| "truthy (JBool b) = b"
| "truthy (JNum q) = (q \<noteq> 0)"
| "truthy (JStr s) = (s \<noteq> [])"
| "truthy (JArr xs) = (xs \<noteq> [])"
| "truthy (JObj kvs) = (kvs \<noteq> [])"

fun default_fields :: "string option \<Rightarrow> string list" where
  "default_fields entity =
     (if entity = Some ''member'' then [''login'', ''id'', ''type'']
      else if entity = Some ''repo'' then [''name'', ''owner.login'']
      else if entity = Some ''team'' then [''name'', ''id'', ''privacy'', ''permission'']
      else if entity = Some ''org'' then [''login'', ''user'']
      else if entity = Some ''collab'' then [''login'', ''owner'', ''repo'', ''id'']
      else if entity = Some ''commit''
        then [''commit.committer.date'', ''committer.login'', ''commit.message'']
      else [''name''])"

text \<open>
  \<^verbatim>\<open>constants and fldname in constants\<close>, giving \<^verbatim>\<open>constants[fldname]\<close> when it holds:
  \<^verbatim>\<open>constants\<close> is \<^verbatim>\<open>None\<close> or a dict, and an empty dict holds no key.
\<close>

definition in_constants :: "(string \<times> json) list option \<Rightarrow> string \<Rightarrow> json option" where
  "in_constants constants fldname =
     (case constants of None \<Rightarrow> None | Some c \<Rightarrow> dict_get c fldname)"

text \<open>
  The wildcard branch, lines 341 to 356. \<^verbatim>\<open>jsondata\<close> is a JSON object, given by its
  items: the loop \<^verbatim>\<open>for fldname in jsondata\<close> visits the keys in order and
  \<^verbatim>\<open>jsondata[fldname]\<close> is the value stored with the key.
\<close>

definition strip_urls :: "(string \<times> json) list \<Rightarrow> (string \<times> json) list" where
  "strip_urls this_item = filter (\<lambda>(key, value). \<not> str_endswith key ''url'') this_item"

fun wild_loop :: "string \<Rightarrow> (string \<times> json) list \<Rightarrow> odict \<Rightarrow> odict" where
  "wild_loop f0 [] values = values"
| "wild_loop f0 ((fldname, this_item) # rest) values =
     (if f0 = ''*'' \<or> (f0 = ''urls'' \<and> str_endswith fldname ''url'')
         \<or> (f0 = ''nourls'' \<and> \<not> str_endswith fldname ''url'')
      then (case this_item of
              JObj d \<Rightarrow>
                if f0 = ''nourls''
                then wild_loop f0 rest (od_set values fldname (JObj (strip_urls d)))
                else wild_loop f0 rest (od_set values fldname this_item)
            | _ \<Rightarrow> wild_loop f0 rest (od_set values fldname this_item))
      else wild_loop f0 rest values)"

text \<open>
  The explicit branch, lines 359 to 367, one requested field name per step. The lookup
  \<^verbatim>\<open>jsondata[fldname]\<close> of line 367 is outside any \<^verbatim>\<open>try\<close>: its KeyError ends the
  call.
\<close>

fun explicit_loop ::
  "(string \<times> json) list option \<Rightarrow> (string \<times> json) list \<Rightarrow> string list \<Rightarrow>
   odict \<times> string set \<Rightarrow> error + (odict \<times> string set)" where
  "explicit_loop constants jsondata [] (values, unk) = Inr (values, unk)"
| "explicit_loop constants jsondata (fldname # rest) (values, unk) =
     (case in_constants constants fldname of
        Some c \<Rightarrow> explicit_loop constants jsondata rest (od_set values fldname c, unk)
      | None \<Rightarrow>
          (case nested_json_value (JObj jsondata) fldname unk of
             Inl e \<Rightarrow> Inl e
           | Inr (retval, unk') \<Rightarrow>
               if str_lower fldname = ''private''
               then (case subscript (JObj jsondata) fldname of
                       Inl e \<Rightarrow> Inl e
                     | Inr b \<Rightarrow>
                         explicit_loop constants jsondata rest
                           (od_set (od_set values (str_replace fldname) retval) fldname
                              (JStr (if truthy b then ''private'' else ''public'')), unk'))
               else explicit_loop constants jsondata rest
                      (od_set values (str_replace fldname) retval, unk')))"

text \<open>
  \<open>data_fields\<close>, lines 316 to 368. \<^verbatim>\<open>jsondata\<close> is one item of a decoded page, a JSON
  object, and is given by its items; \<^verbatim>\<open>fields\<close> is \<^verbatim>\<open>None\<close> or a list of names and
  \<^verbatim>\<open>constants\<close> is \<^verbatim>\<open>None\<close> or a dict. The result is the record \<^verbatim>\<open>values\<close> together
  with the unknown-field set, or the exception that ended the call.
\<close>

definition data_fields ::
  "string option \<Rightarrow> (string \<times> json) list \<Rightarrow> string list option \<Rightarrow>
   (string \<times> json) list option \<Rightarrow> string set \<Rightarrow> error + (odict \<times> string set)" where
  "data_fields entity jsondata fields constants unk =
     (let fields = (case fields of None \<Rightarrow> default_fields entity
                    | Some [] \<Rightarrow> default_fields entity
                    | Some fs \<Rightarrow> fs)
      in case fields of
           [] \<Rightarrow> Inl IndexError
         | f0 # _ \<Rightarrow>
             if f0 = ''*'' \<or> f0 = ''urls'' \<or> f0 = ''nourls'' then
               Inr (wild_loop f0 jsondata
                      (case constants of
                         None \<Rightarrow> []
                       | Some c \<Rightarrow>
                           if c \<noteq> [] \<and> (f0 = ''*'' \<or> f0 = ''nourls'')
                           then od_update [] c else []),
                    unk)
             else explicit_loop constants jsondata fields ([], unk))"

section \<open>github\_data\<close>

text \<open>
  The loop of lines 529 to 534: the items of \<^verbatim>\<open>all_fields\<close> are projected one after the
  other and the records appended to \<^verbatim>\<open>retval\<close>. An exception of \<open>data_fields\<close> ends
  the loop and the call.
\<close>

fun github_data_loop ::
  "string option \<Rightarrow> string list option \<Rightarrow> (string \<times> json) list option \<Rightarrow>
   (string \<times> json) list list \<Rightarrow> odict list \<times> string set \<Rightarrow>
   error + (odict list \<times> string set)" where
  "github_data_loop entity fields constants [] (retval, unk) = Inr (retval, unk)"
| "github_data_loop entity fields constants (json_item # rest) (retval, unk) =
     (case data_fields entity json_item fields constants unk of
        Inl e \<Rightarrow> Inl e
      | Inr (values, unk') \<Rightarrow>
          github_data_loop entity fields constants rest (retval @ [values], unk'))"

text \<open>
  \<open>cache_update\<close>, lines 170 to 187, as far as it changes the payload: when there are
  constants, \<^verbatim>\<open>data_item[fldname] = constants[fldname]\<close> writes every constant into every
  item of the payload, in place. Writing the cache file is output and is not modelled.
\<close>

definition cache_update ::
  "(string \<times> json) list list \<Rightarrow> (string \<times> json) list option \<Rightarrow> (string \<times> json) list list"
  where
  "cache_update payload constants =
     (case constants of
        None \<Rightarrow> payload
      | Some c \<Rightarrow> if c \<noteq> [] then map (\<lambda>data_item. od_update data_item c) payload else payload)"

text \<open>
  \<open>github_data\<close>, lines 471 to 534. What the function reads from its environment is
  passed in: \<^verbatim>\<open>datasource\<close> is \<^verbatim>\<open>_settings.datasource\<close>; \<^verbatim>\<open>cached\<close> is the content of
  the cache file of the endpoint, \<^verbatim>\<open>None\<close> when \<^verbatim>\<open>cache_exists\<close> is false; \<^verbatim>\<open>api\<close> is
  the list that \<^verbatim>\<open>github_allpages\<close> returns for the endpoint; \<^verbatim>\<open>answer\<close> is what the user
  types at the prompt. Read from the API, the items pass through \<open>cache_update\<close> before
  the loop projects them. \<^verbatim>\<open>sys.exit(0)\<close> raises SystemExit.
\<close>

definition github_data ::
  "string option \<Rightarrow> string list option \<Rightarrow> (string \<times> json) list option \<Rightarrow>
   string \<Rightarrow> (string \<times> json) list list option \<Rightarrow> (string \<times> json) list list \<Rightarrow> string \<Rightarrow>
   string set \<Rightarrow> error + (odict list \<times> string set)" where
  "github_data entity fields constants datasource cached api answer unk =
     (if datasource = ''c'' \<and> cached = None then Inr ([], unk)
      else
        let read_from =
              (if datasource = ''a'' then ''a''
               else if datasource = ''c'' then ''c''
               else str_lower answer)
        in if read_from = ''x'' then Inl SystemExit
           else
             let all_fields =
                   (if read_from = ''a'' then cache_update api constants
                    else (case cached of
                            Some d \<Rightarrow> if read_from = ''c'' then d else []
                          | None \<Rightarrow> []))
             in github_data_loop entity fields constants all_fields ([], unk))"

text \<open>
  Modelled from the spec: \<^verbatim>\<open>github_allpages\<close> of the module \<^verbatim>\<open>githuberino\<close>, which is
  not part of the sources. It fetches the pages of an endpoint and returns their items as
  one list, in arrival order: page order, then the order within the page. The aggregation
  of a sequence of pages is \<open>github_data\<close> reading these items from the API.
\<close>

definition github_allpages :: "(string \<times> json) list list list \<Rightarrow> (string \<times> json) list list" where
  "github_allpages pages = concat pages"

definition aggregate ::
  "string option \<Rightarrow> (string \<times> json) list list list \<Rightarrow> string list option \<Rightarrow>
   (string \<times> json) list option \<Rightarrow> string set \<Rightarrow> error + (odict list \<times> string set)" where
  "aggregate entity pages fields constants unk =
     github_data entity fields constants ''a'' None (github_allpages pages) [] unk"

section \<open>Vocabulary of the theorems\<close>

text \<open>
  What the five branches of \<open>nested_json_value\<close> look up in a payload item: the walk of
  the specification along the first five segments of the path (all of them, when there are
  at most five).
\<close>

definition resolved :: "(string \<times> json) list \<Rightarrow> string \<Rightarrow> json option" where
  "resolved jsondata p = resolve_spec (JObj jsondata) (take 5 (str_split p))"

definition null_or :: "json option \<Rightarrow> json" where
  "null_or r = (case r of Some v \<Rightarrow> v | None \<Rightarrow> JNull)"

text \<open>
  The assignments to \<^verbatim>\<open>values\<close> that one requested field name causes in the explicit
  branch when the step completes, in order; the condition under which the step raises
  instead; and the condition under which it adds the name to the unknown-field set.
\<close>

definition writes ::
  "(string \<times> json) list option \<Rightarrow> (string \<times> json) list \<Rightarrow> string \<Rightarrow> (string \<times> json) list"
  where
  "writes constants jsondata f =
     (case in_constants constants f of
        Some c \<Rightarrow> [(f, c)]
      | None \<Rightarrow>
          (str_replace f, null_or (resolved jsondata f)) #
          (if str_lower f = ''private''
           then (case dict_get jsondata f of
                   Some b \<Rightarrow> [(f, JStr (if truthy b then ''private'' else ''public''))]
                 | None \<Rightarrow> [])
           else []))"

definition raises_on ::
  "(string \<times> json) list option \<Rightarrow> (string \<times> json) list \<Rightarrow> string \<Rightarrow> bool" where
  "raises_on constants jsondata f =
     (in_constants constants f = None \<and> str_lower f = ''private''
      \<and> dict_get jsondata f = None)"

definition missing ::
  "(string \<times> json) list option \<Rightarrow> (string \<times> json) list \<Rightarrow> string \<Rightarrow> bool" where
  "missing constants jsondata f =
     (in_constants constants f = None \<and> resolved jsondata f = None)"

text \<open>The key under which a requested field name ends up in the record.\<close>

definition out_key :: "(string \<times> json) list option \<Rightarrow> string \<Rightarrow> string" where
  "out_key constants f =
     (case in_constants constants f of Some c \<Rightarrow> f | None \<Rightarrow> str_replace f)"

text \<open>The explicit mode: a first field name that is none of the three wildcard markers.\<close>

definition explicit_mode :: "string list \<Rightarrow> bool" where
  "explicit_mode fields =
     (case fields of [] \<Rightarrow> False | f0 # _ \<Rightarrow> f0 \<noteq> ''*'' \<and> f0 \<noteq> ''urls'' \<and> f0 \<noteq> ''nourls'')"

text \<open>The value that the resolver returns for a path in a payload item.\<close>

definition resolver_value :: "(string \<times> json) list \<Rightarrow> string \<Rightarrow> json" where
  "resolver_value jsondata p =
     (case nested_json_value (JObj jsondata) p {} of Inr (retval, unk) \<Rightarrow> retval | Inl e \<Rightarrow> JNull)"

text \<open>The items of the constants; \<^verbatim>\<open>None\<close> has none.\<close>

definition items_of :: "(string \<times> json) list option \<Rightarrow> (string \<times> json) list" where
  "items_of constants = (case constants of None \<Rightarrow> [] | Some c \<Rightarrow> c)"

text \<open>The record that \<open>data_fields\<close> returns for an item, if it returns one.\<close>

definition projected ::
  "string option \<Rightarrow> string list option \<Rightarrow> (string \<times> json) list option \<Rightarrow>
   (string \<times> json) list \<Rightarrow> odict option" where
  "projected entity fields constants json_item =
     (case data_fields entity json_item fields constants {} of
        Inr (values, unk) \<Rightarrow> Some values
      | Inl e \<Rightarrow> None)"

text \<open>
  The items that the loop of \<open>github_data\<close> runs over: none when the cached data is
  asked for and absent, the payload as \<open>cache_update\<close> leaves it when read from the API,
  the cached items when read from the cache. \<open>None\<close> when the call exits before the loop.
\<close>

definition batch_items ::
  "(string \<times> json) list option \<Rightarrow> string \<Rightarrow> (string \<times> json) list list option \<Rightarrow>
   (string \<times> json) list list \<Rightarrow> string \<Rightarrow> (string \<times> json) list list option" where
  "batch_items constants datasource cached api answer =
     (let read_from =
            (if datasource = ''a'' then ''a''
             else if datasource = ''c'' then ''c''
             else str_lower answer)
      in if read_from = ''x'' then None
         else if read_from = ''a'' then Some (cache_update api constants)
         else if read_from = ''c'' then Some (case cached of Some d \<Rightarrow> d | None \<Rightarrow> [])
         else Some [])"

section \<open>The resolver\<close>

lemma length_str_split: "length (str_split s) = str_count s + 1"
  by (induction s) (auto simp: str_count_def split: list.splits)

lemma str_split_nodot: "str_count s = 0 \<Longrightarrow> str_split s = [s]"
  by (induction s) (auto simp: str_count_def split: list.splits if_splits)

lemmas resolver_defs =
  nested_json_value_def except_unknown_def subscript_def then_key_def sub_key_def
  list_index_def

lemma nested_json_value_walk:
  "nested_json_value j p unk =
     (case resolve_spec j (take 5 (str_split p)) of
        Some v \<Rightarrow> Inr (v, unk)
      | None \<Rightarrow> Inr (JNull, insert p unk))"
proof -
  let ?ks = "str_split p"
  have len: "length ?ks = str_count p + 1"
    by (rule length_str_split)
  consider (one) "str_count p = 0" | (two) "str_count p = 1" | (three) "str_count p = 2"
    | (four) "str_count p = 3" | (more) "4 \<le> str_count p"
    by linarith
  then show ?thesis
  proof cases
    case one
    then have "?ks = [p]"
      by (rule str_split_nodot)
    then show ?thesis using one
      by (simp add: resolver_defs split: json.splits option.splits)
  next
    case two
    then obtain a b where "?ks = [a, b]" using len
      by (auto simp: length_Suc_conv)
    then show ?thesis using two
      by (simp add: resolver_defs split: json.splits option.splits)
  next
    case three
    then obtain a b c where "?ks = [a, b, c]" using len
      by (auto simp: length_Suc_conv numeral_eq_Suc)
    then show ?thesis using three
      by (simp add: resolver_defs split: json.splits option.splits)
  next
    case four
    then obtain a b c d where "?ks = [a, b, c, d]" using len
      by (auto simp: length_Suc_conv numeral_eq_Suc)
    then show ?thesis using four
      by (simp add: resolver_defs split: json.splits option.splits)
  next
    case more
    with len have "Suc (Suc (Suc (Suc (Suc 0)))) \<le> length ?ks"
      by simp
    then obtain a b c d e rest where "?ks = a # b # c # d # e # rest"
      by (auto simp: Suc_le_length_iff)
    then show ?thesis using more
      by (simp add: resolver_defs split: json.splits option.splits)
  qed
qed

text \<open>
  Claim C1. For every payload and every dotted path of one to five segments,
  \<open>nested_json_value\<close> returns normally. When every segment but the last resolves to a
  mapping and the last key is present, the result is the value stored there and the
  unknown-field set is unchanged. Otherwise (a key is absent, or a value on the way is
  not a mapping, for instance null) the result is \<^verbatim>\<open>None\<close> and the path has been added to
  the unknown-field set. No exception leaves the function.
\<close>

theorem nested_json_value_resolves:
  assumes "length (str_split p) \<le> 5"
  shows "nested_json_value j p unk =
     (case resolve_spec j (str_split p) of
        Some v \<Rightarrow> Inr (v, unk)
      | None \<Rightarrow> Inr (JNull, insert p unk))"
  using assms by (simp add: nested_json_value_walk)

theorem nested_json_value_resolves_witness:
  "length (str_split ''commit.committer.date'') \<le> 5
   \<and> nested_json_value
        (JObj [(''commit'', JObj [(''committer'', JObj [(''date'', JStr ''2017-05-01'')])])])
        ''commit.committer.date'' {} = Inr (JStr ''2017-05-01'', {})
   \<and> nested_json_value (JObj [(''commit'', JNull)]) ''commit.committer.date'' {}
       = Inr (JNull, {''commit.committer.date''})"
  using nested_json_value_resolves
    [of "''commit.committer.date''"
        "JObj [(''commit'', JObj [(''committer'', JObj [(''date'', JStr ''2017-05-01'')])])]"
        "{}"]
    nested_json_value_resolves
    [of "''commit.committer.date''" "JObj [(''commit'', JNull)]" "{}"]
  by simp

text \<open>
  Claim C10. A path of more than five segments takes the last branch of
  \<open>nested_json_value\<close>: the lookup uses the first five segments and none of the others.
  It returns normally; when the first five segments resolve, the result is the value at
  depth five, and otherwise \<^verbatim>\<open>None\<close>, with the whole path added to the unknown-field set.
\<close>

theorem nested_json_value_long_path:
  assumes "5 < length (str_split p)"
  shows "nested_json_value j p unk =
     (case resolve_spec j (take 5 (str_split p)) of
        Some v \<Rightarrow> Inr (v, unk)
      | None \<Rightarrow> Inr (JNull, insert p unk))"
  by (rule nested_json_value_walk)

theorem nested_json_value_long_path_witness:
  "5 < length (str_split ''a.b.c.d.e.f.g'')
   \<and> nested_json_value
        (JObj [(''a'', JObj [(''b'', JObj [(''c'', JObj [(''d'',
           JObj [(''e'', JStr ''deep'')])])])])])
        ''a.b.c.d.e.f.g'' {} = Inr (JStr ''deep'', {})"
  using nested_json_value_long_path
    [of "''a.b.c.d.e.f.g''"
        "JObj [(''a'', JObj [(''b'', JObj [(''c'', JObj [(''d'',
           JObj [(''e'', JStr ''deep'')])])])])]"
        "{}"]
  by simp

section \<open>Ordered dictionaries\<close>

lemma od_update_append: "od_update vals (xs @ ys) = od_update (od_update vals xs) ys"
  by (induction xs arbitrary: vals) auto

lemma dict_get_od_set:
  "dict_get (od_set vals k v) k' = (if k' = k then Some v else dict_get vals k')"
  by (induction vals k v rule: od_set.induct) auto

lemma keys_od_set: "fst ` set (od_set vals k v) = insert k (fst ` set vals)"
  by (induction vals k v rule: od_set.induct) auto

lemma dict_get_None_iff: "dict_get kvs k = None \<longleftrightarrow> k \<notin> fst ` set kvs"
  by (induction kvs k rule: dict_get.induct) auto

lemma od_update_ignores:
  "k \<notin> fst ` set ws \<Longrightarrow> dict_get (od_update vals ws) k = dict_get vals k"
  by (induction vals ws rule: od_update.induct) (auto simp: dict_get_od_set)

lemma od_update_blocks:
  assumes "\<forall>g\<in>set fs. k \<notin> fst ` set (W g)
              \<or> (\<forall>vals0. dict_get (od_update vals0 (W g)) k = Some v)"
  shows "dict_get (od_update vals (concat (map W fs))) k =
           (if \<exists>g\<in>set fs. k \<in> fst ` set (W g) then Some v else dict_get vals k)"
  using assms
proof (induction fs arbitrary: vals)
  case Nil
  show ?case by simp
next
  case (Cons g fs)
  have step: "dict_get (od_update vals (concat (map W (g # fs)))) k =
      (if \<exists>g'\<in>set fs. k \<in> fst ` set (W g') then Some v
       else dict_get (od_update vals (W g)) k)"
    using Cons.IH [of "od_update vals (W g)"] Cons.prems by (simp add: od_update_append)
  show ?case
  proof (cases "k \<in> fst ` set (W g)")
    case True
    with Cons.prems have "dict_get (od_update vals (W g)) k = Some v"
      by simp
    with True step show ?thesis by simp
  next
    case False
    then have "dict_get (od_update vals (W g)) k = dict_get vals k"
      by (rule od_update_ignores)
    with False step show ?thesis by simp
  qed
qed

lemma od_set_fresh: "k \<notin> fst ` set vals \<Longrightarrow> od_set vals k v = vals @ [(k, v)]"
  by (induction vals k v rule: od_set.induct) auto

lemma od_update_fresh:
  "distinct (map fst ws) \<Longrightarrow> fst ` set ws \<inter> fst ` set vals = {} \<Longrightarrow>
   od_update vals ws = vals @ ws"
proof (induction vals ws rule: od_update.induct)
  case (1 vals)
  show ?case by simp
next
  case (2 vals k v d)
  from "2.prems" have fresh: "k \<notin> fst ` set vals"
    by auto
  then have eq: "od_set vals k v = vals @ [(k, v)]"
    by (rule od_set_fresh)
  from "2.prems" have "distinct (map fst d)" "fst ` set d \<inter> fst ` set (od_set vals k v) = {}"
    by (auto simp: keys_od_set)
  then have "od_update (od_set vals k v) d = od_set vals k v @ d"
    by (rule "2.IH")
  with eq show ?case by simp
qed

section \<open>The explicit branch\<close>

lemma nested_json_value_resolved:
  "nested_json_value (JObj j) f unk =
     Inr (null_or (resolved j f), if resolved j f = None then insert f unk else unk)"
  by (simp add: nested_json_value_walk resolved_def null_or_def split: option.splits)

lemma explicit_loop_eq:
  "explicit_loop cs j fs (vals, unk) =
     (if \<exists>f\<in>set fs. raises_on cs j f then Inl KeyError
      else Inr (od_update vals (concat (map (writes cs j) fs)),
                unk \<union> set (filter (missing cs j) fs)))"
proof (induction fs arbitrary: vals unk)
  case Nil
  show ?case by simp
next
  case (Cons f fs)
  show ?case
  proof (cases "in_constants cs f")
    case (Some c)
    then have "writes cs j f = [(f, c)]" "\<not> raises_on cs j f" "\<not> missing cs j f"
      by (simp_all add: writes_def raises_on_def missing_def)
    with Some show ?thesis
      by (auto simp: Cons.IH)
  next
    case None
    show ?thesis
    proof (cases "str_lower f = ''private''")
      case False
      with None have "writes cs j f = [(str_replace f, null_or (resolved j f))]"
        "\<not> raises_on cs j f" "missing cs j f = (resolved j f = None)"
        by (simp_all add: writes_def raises_on_def missing_def)
      with None False show ?thesis
        by (auto simp: Cons.IH nested_json_value_resolved)
    next
      case True
      show ?thesis
      proof (cases "dict_get j f")
        case dn: None
        with None True have "raises_on cs j f"
          by (simp add: raises_on_def)
        with None True dn show ?thesis
          by (simp add: nested_json_value_resolved subscript_def)
      next
        case (Some b)
        with None True have "writes cs j f =
            [(str_replace f, null_or (resolved j f)),
             (f, JStr (if truthy b then ''private'' else ''public''))]"
          "\<not> raises_on cs j f" "missing cs j f = (resolved j f = None)"
          by (simp_all add: writes_def raises_on_def missing_def)
        with None True Some show ?thesis
          by (auto simp: Cons.IH nested_json_value_resolved subscript_def)
      qed
    qed
  qed
qed

lemma resolver_value_eq: "resolver_value j f = null_or (resolved j f)"
  by (simp add: resolver_value_def nested_json_value_resolved)

lemma data_fields_explicit:
  assumes "explicit_mode fields"
  shows "data_fields entity j (Some fields) cs unk = explicit_loop cs j fields ([], unk)"
  using assms by (cases fields) (simp_all add: explicit_mode_def data_fields_def)

section \<open>The lookup of line 367\<close>

text \<open>
  Claim C2 says that \<open>data_fields\<close> returns for every item and every explicit list of
  paths, also when a requested field named \<^verbatim>\<open>private\<close> is absent from the item. The code
  raises there: the name is looked up with \<^verbatim>\<open>jsondata[fldname]\<close> outside any \<^verbatim>\<open>try\<close>.
  The call below, on a member item that has no such key, ends with KeyError.
\<close>

theorem data_fields_private_absent_raises:
  "data_fields None [(''login'', JStr ''octocat''), (''id'', JNum 1)]
     (Some [''login'', ''private'']) None {} = Inl KeyError"
  by (simp add: data_fields_def in_constants_def str_count_def resolver_defs
      str_lower_def lower_char_def str_replace_def)

section \<open>Constants and the field named private\<close>

lemma private_no_underscore:
  assumes "str_lower f = ''private''"
  shows "CHR ''_'' \<notin> set f"
proof
  assume "CHR ''_'' \<in> set f"
  then have "lower_char (CHR ''_'') \<in> set (str_lower f)"
    unfolding str_lower_def by (simp only: set_map) (rule imageI)
  with assms show False
    by (simp add: lower_char_def)
qed

lemma str_replace_nodot: "CHR ''.'' \<notin> set g \<Longrightarrow> str_replace g = g"
  by (induction g) (auto simp: str_replace_def)

lemma str_replace_dot: "CHR ''.'' \<in> set g \<Longrightarrow> CHR ''_'' \<in> set (str_replace g)"
  by (induction g) (auto simp: str_replace_def)

lemma private_no_alias:
  assumes "str_lower f = ''private''" and "str_replace g = f"
  shows "g = f"
proof -
  have "CHR ''_'' \<notin> set f"
    using assms(1) by (rule private_no_underscore)
  then have "CHR ''_'' \<notin> set (str_replace g)"
    by (simp add: assms(2))
  then have "CHR ''.'' \<notin> set g"
    using str_replace_dot by blast
  then show ?thesis
    using assms(2) by (simp add: str_replace_nodot)
qed

lemma writes_keys:
  assumes "k \<in> fst ` set (writes cs j g)"
  shows "(in_constants cs g \<noteq> None \<and> k = g)
         \<or> (in_constants cs g = None
             \<and> (k = str_replace g \<or> k = g \<and> str_lower g = ''private''))"
proof (cases "in_constants cs g")
  case None
  show ?thesis
  proof (cases "str_lower g = ''private''")
    case False
    with assms None show ?thesis
      by (simp add: writes_def)
  next
    case True
    show ?thesis
    proof (cases "dict_get j g")
      case dn: None
      with assms \<open>in_constants cs g = None\<close> True show ?thesis
        by (simp add: writes_def)
    next
      case (Some b)
      with assms \<open>in_constants cs g = None\<close> True show ?thesis
        by (auto simp: writes_def)
    qed
  qed
next
  case (Some c)
  with assms show ?thesis
    by (simp add: writes_def)
qed

lemmas eval_defs =
  data_fields_def in_constants_def str_count_def resolver_defs str_lower_def lower_char_def
  str_replace_def explicit_mode_def

text \<open>
  Claim C6. In explicit mode a requested field name that is a key of the constants is
  written to the record under that very name with the constant's value, and the payload
  is not consulted for it: whatever the payload item is, when the call returns a record,
  the record holds the constant under that key. (The record holds one value per key, so
  the statement is about a key that no other requested path is written to: no requested
  path outside the constants has this name as its output key.)
\<close>

theorem constant_wins:
  assumes "explicit_mode fields"
    and "f \<in> set fields"
    and "in_constants cs f = Some c"
    and "\<forall>g\<in>set fields. in_constants cs g = None \<longrightarrow> str_replace g \<noteq> f"
    and "data_fields entity j (Some fields) cs unk = Inr (values, unk')"
  shows "dict_get values f = Some c"
proof -
  from assms(1,5) have vals: "values = od_update [] (concat (map (writes cs j) fields))"
    by (simp add: data_fields_explicit explicit_loop_eq split: if_splits)
  have blocks: "\<forall>g\<in>set fields. f \<notin> fst ` set (writes cs j g)
      \<or> (\<forall>vals0. dict_get (od_update vals0 (writes cs j g)) f = Some c)"
  proof
    fix g assume g: "g \<in> set fields"
    show "f \<notin> fst ` set (writes cs j g)
      \<or> (\<forall>vals0. dict_get (od_update vals0 (writes cs j g)) f = Some c)"
    proof (cases "g = f")
      case True
      with assms(3) have "writes cs j g = [(f, c)]"
        by (simp add: writes_def)
      then show ?thesis
        by (simp add: dict_get_od_set)
    next
      case False
      have "f \<notin> fst ` set (writes cs j g)"
      proof
        assume "f \<in> fst ` set (writes cs j g)"
        from writes_keys [OF this] False g assms(3,4) show False
          by auto
      qed
      then show ?thesis ..
    qed
  qed
  from assms(3) have "f \<in> fst ` set (writes cs j f)"
    by (simp add: writes_def)
  with assms(2) have ex: "\<exists>g\<in>set fields. f \<in> fst ` set (writes cs j g)"
    by blast
  from od_update_blocks [OF blocks, of "[]"] ex vals show ?thesis
    by simp
qed


theorem constant_wins_witness:
  "explicit_mode [''owner'', ''login'']
   \<and> ''owner'' \<in> set [''owner'', ''login'']
   \<and> in_constants (Some [(''owner'', JStr ''acme''), (''repo'', JStr ''widgets'')]) ''owner''
       = Some (JStr ''acme'')
   \<and> str_replace ''login'' \<noteq> ''owner''
   \<and> data_fields None [(''login'', JStr ''octocat''), (''owner'', JStr ''payload'')]
        (Some [''owner'', ''login''])
        (Some [(''owner'', JStr ''acme''), (''repo'', JStr ''widgets'')]) {}
       = Inr ([(''owner'', JStr ''acme''), (''login'', JStr ''octocat'')], {})
   \<and> dict_get [(''owner'', JStr ''acme''), (''login'', JStr ''octocat'')] ''owner''
       = Some (JStr ''acme'')"
proof -
  let ?cs = "Some [(''owner'', JStr ''acme''), (''repo'', JStr ''widgets'')]"
  let ?j = "[(''login'', JStr ''octocat''), (''owner'', JStr ''payload'')]"
  have e: "explicit_mode [''owner'', ''login'']"
    by (simp add: explicit_mode_def)
  have m: "''owner'' \<in> set [''owner'', ''login'']"
    by simp
  have c: "in_constants ?cs ''owner'' = Some (JStr ''acme'')"
    by (simp add: in_constants_def)
  have a: "\<forall>g\<in>set [''owner'', ''login'']. in_constants ?cs g = None
             \<longrightarrow> str_replace g \<noteq> ''owner''"
    by (simp add: in_constants_def str_replace_def)
  have d: "data_fields None ?j (Some [''owner'', ''login'']) ?cs {}
             = Inr ([(''owner'', JStr ''acme''), (''login'', JStr ''octocat'')], {})"
    by (simp add: eval_defs)
  have a': "str_replace ''login'' \<noteq> ''owner''"
    by (simp add: str_replace_def)
  from constant_wins [OF e m c a d] e m c a' d show ?thesis
    by (intro conjI)
qed


text \<open>
  Claim C7. When the payload item has a top-level field whose name is, case-insensitively,
  \<^verbatim>\<open>private\<close>, with a boolean value, and that field is requested in explicit mode (and is
  not overridden by a constant of the same name, which takes precedence), the record that the
  call returns holds the string \<^verbatim>\<open>private\<close> under that name when the value is true and
  the string \<^verbatim>\<open>public\<close> when it is false, in place of the value that the resolver
  returned.
\<close>

theorem private_field_reexpressed:
  assumes "explicit_mode fields"
    and "f \<in> set fields"
    and "str_lower f = ''private''"
    and "dict_get j f = Some (JBool b)"
    and "in_constants cs f = None"
    and "data_fields entity j (Some fields) cs unk = Inr (values, unk')"
  shows "dict_get values f = Some (JStr (if b then ''private'' else ''public''))"
proof -
  let ?v = "JStr (if b then ''private'' else ''public'')"
  from assms(1,6) have vals: "values = od_update [] (concat (map (writes cs j) fields))"
    by (simp add: data_fields_explicit explicit_loop_eq split: if_splits)
  have wf: "writes cs j f = [(str_replace f, null_or (resolved j f)), (f, ?v)]"
    using assms(3,4,5) by (simp add: writes_def)
  have blocks: "\<forall>g\<in>set fields. f \<notin> fst ` set (writes cs j g)
      \<or> (\<forall>vals0. dict_get (od_update vals0 (writes cs j g)) f = Some ?v)"
  proof
    fix g assume g: "g \<in> set fields"
    show "f \<notin> fst ` set (writes cs j g)
      \<or> (\<forall>vals0. dict_get (od_update vals0 (writes cs j g)) f = Some ?v)"
    proof (cases "g = f")
      case True
      with wf show ?thesis
        by (simp add: dict_get_od_set)
    next
      case False
      have "f \<notin> fst ` set (writes cs j g)"
      proof
        assume "f \<in> fst ` set (writes cs j g)"
        from writes_keys [OF this] False private_no_alias [OF assms(3), of g] show False
          by auto
      qed
      then show ?thesis ..
    qed
  qed
  from wf have "f \<in> fst ` set (writes cs j f)"
    by simp
  with assms(2) have ex: "\<exists>g\<in>set fields. f \<in> fst ` set (writes cs j g)"
    by blast
  from od_update_blocks [OF blocks, of "[]"] ex vals show ?thesis
    by simp
qed

theorem private_field_reexpressed_witness:
  "explicit_mode [''name'', ''private'']
   \<and> ''private'' \<in> set [''name'', ''private'']
   \<and> str_lower ''private'' = ''private''
   \<and> dict_get [(''name'', JStr ''widgets''), (''private'', JBool True)] ''private''
       = Some (JBool True)
   \<and> in_constants (Some [(''org'', JStr ''acme'')]) ''private'' = None
   \<and> data_fields None [(''name'', JStr ''widgets''), (''private'', JBool True)]
        (Some [''name'', ''private'']) (Some [(''org'', JStr ''acme'')]) {}
       = Inr ([(''name'', JStr ''widgets''), (''private'', JStr ''private'')], {})
   \<and> dict_get [(''name'', JStr ''widgets''), (''private'', JStr ''private'')] ''private''
       = Some (JStr (if True then ''private'' else ''public''))"
proof -
  let ?cs = "Some [(''org'', JStr ''acme'')]"
  let ?j = "[(''name'', JStr ''widgets''), (''private'', JBool True)]"
  have e: "explicit_mode [''name'', ''private'']"
    by (simp add: explicit_mode_def)
  have m: "''private'' \<in> set [''name'', ''private'']"
    by simp
  have l: "str_lower ''private'' = ''private''"
    by (simp add: str_lower_def lower_char_def)
  have p: "dict_get ?j ''private'' = Some (JBool True)"
    by simp
  have c: "in_constants ?cs ''private'' = None"
    by (simp add: in_constants_def)
  have d: "data_fields None ?j (Some [''name'', ''private'']) ?cs {}
             = Inr ([(''name'', JStr ''widgets''), (''private'', JStr ''private'')], {})"
    by (simp add: eval_defs)
  from private_field_reexpressed [OF e m l p c d] e m l p c d show ?thesis
    by (intro conjI)
qed


section \<open>Requested paths\<close>

lemma private_no_dot:
  assumes "str_lower f = ''private''"
  shows "CHR ''.'' \<notin> set f"
proof
  assume "CHR ''.'' \<in> set f"
  then have "lower_char (CHR ''.'') \<in> set (str_lower f)"
    unfolding str_lower_def by (simp only: set_map) (rule imageI)
  with assms show False
    by (simp add: lower_char_def)
qed

lemma str_count_nodot: "CHR ''.'' \<notin> set p \<Longrightarrow> str_count p = 0"
  by (induction p) (auto simp: str_count_def)

lemma resolved_nodot: "CHR ''.'' \<notin> set p \<Longrightarrow> resolved j p = dict_get j p"
  by (simp add: resolved_def str_split_nodot str_count_nodot split: option.splits)

lemma writes_keys_out:
  assumes "k \<in> fst ` set (writes cs j g)"
  shows "k = out_key cs g"
proof -
  from writes_keys [OF assms] show ?thesis
  proof (elim disjE conjE)
    assume "in_constants cs g \<noteq> None" "k = g"
    then show ?thesis
      by (auto simp: out_key_def)
  next
    assume "in_constants cs g = None" "k = str_replace g"
    then show ?thesis
      by (simp add: out_key_def)
  next
    assume n: "in_constants cs g = None" and "k = g" and p: "str_lower g = ''private''"
    from p have "str_replace g = g"
      by (simp add: private_no_dot str_replace_nodot)
    with n \<open>k = g\<close> show ?thesis
      by (simp add: out_key_def)
  qed
qed

lemma writes_nonempty: "writes cs j g \<noteq> []"
  by (cases "in_constants cs g") (simp_all add: writes_def)

lemma map_fst_od_set:
  "map fst (od_set vals k v) = (if k \<in> fst ` set vals then map fst vals else map fst vals @ [k])"
  by (induction vals k v rule: od_set.induct) auto

lemma map_fst_od_update_present:
  "\<forall>k\<in>fst ` set ws. k \<in> fst ` set vals \<Longrightarrow> map fst (od_update vals ws) = map fst vals"
proof (induction vals ws rule: od_update.induct)
  case (1 vals)
  show ?case by simp
next
  case (2 vals k v d)
  from "2.prems" have k: "k \<in> fst ` set vals"
    by simp
  from "2.prems" have "\<forall>k'\<in>fst ` set d. k' \<in> fst ` set (od_set vals k v)"
    by (simp add: keys_od_set)
  from "2.IH" [OF this] k show ?case
    by (simp add: map_fst_od_set)
qed

lemma map_fst_od_update_block:
  assumes "ws \<noteq> []" and "\<forall>k'\<in>fst ` set ws. k' = k" and "k \<notin> fst ` set vals"
  shows "map fst (od_update vals ws) = map fst vals @ [k]"
proof (cases ws)
  case Nil
  with assms(1) show ?thesis by simp
next
  case (Cons kv d)
  obtain k0 v where kv: "kv = (k0, v)"
    by (cases kv)
  with Cons assms(2) have k0: "k0 = k"
    by simp
  have keys: "map fst (od_set vals k v) = map fst vals @ [k]"
    using assms(3) by (simp add: map_fst_od_set)
  from Cons kv assms(2) have "\<forall>k'\<in>fst ` set d. k' \<in> fst ` set (od_set vals k v)"
    by (auto simp: keys_od_set)
  then have "map fst (od_update (od_set vals k v) d) = map fst (od_set vals k v)"
    by (rule map_fst_od_update_present)
  with keys Cons kv k0 show ?thesis
    by simp
qed

lemma map_fst_od_update_blocks:
  assumes "\<forall>g\<in>set fs. W g \<noteq> [] \<and> (\<forall>k\<in>fst ` set (W g). k = K g)"
    and "distinct (map K fs)"
    and "K ` set fs \<inter> fst ` set vals = {}"
  shows "map fst (od_update vals (concat (map W fs))) = map fst vals @ map K fs"
  using assms
proof (induction fs arbitrary: vals)
  case Nil
  show ?case by simp
next
  case (Cons g fs)
  from Cons.prems have blk: "map fst (od_update vals (W g)) = map fst vals @ [K g]"
    by (intro map_fst_od_update_block) auto
  then have "set (map fst (od_update vals (W g))) = set (map fst vals @ [K g])"
    by simp
  then have keys: "fst ` set (od_update vals (W g)) = insert (K g) (fst ` set vals)"
    by (simp only: set_map set_append) auto
  from Cons.prems have "K ` set fs \<inter> fst ` set (od_update vals (W g)) = {}"
    unfolding keys by auto
  with Cons.prems Cons.IH [of "od_update vals (W g)"]
  have "map fst (od_update (od_update vals (W g)) (concat (map W fs)))
      = map fst (od_update vals (W g)) @ map K fs"
    by simp
  with blk show ?case
    by (simp add: od_update_append)
qed

text \<open>
  Claim C3 as it is worded fails for three kinds of requested path. For a path named
  \<^verbatim>\<open>private\<close> the record holds the string \<^verbatim>\<open>private\<close> or \<^verbatim>\<open>public\<close> and not the
  boolean that the resolver returns. For a path that is a key of the constants the record
  holds the constant and not the value of the payload. And when two requested paths have
  the same output key, as \<^verbatim>\<open>a.b\<close> and \<^verbatim>\<open>a_b\<close> have, the record holds the value of the
  later one under it.
\<close>

theorem requested_path_counterexample:
  "data_fields None [(''private'', JBool True)] (Some [''private'']) None {}
     = Inr ([(''private'', JStr ''private'')], {})
   \<and> resolver_value [(''private'', JBool True)] ''private'' = JBool True
   \<and> data_fields None [(''name'', JStr ''widgets'')] (Some [''name''])
        (Some [(''name'', JStr ''acme'')]) {}
     = Inr ([(''name'', JStr ''acme'')], {})
   \<and> resolver_value [(''name'', JStr ''widgets'')] ''name'' = JStr ''widgets''
   \<and> data_fields None [(''a'', JObj [(''b'', JNum 1)]), (''a_b'', JNum 2)]
        (Some [''a.b'', ''a_b'']) None {}
     = Inr ([(''a_b'', JNum 2)], {})
   \<and> resolver_value [(''a'', JObj [(''b'', JNum 1)]), (''a_b'', JNum 2)] ''a.b'' = JNum 1"
  by (simp add: eval_defs resolver_value_def)

text \<open>
  Claim C3, amended. In explicit mode, when \<open>data_fields\<close> returns a record: every
  requested path that is not a key of the constants, is not (case-insensitively)
  \<^verbatim>\<open>private\<close>, and whose output key no other requested path is written under, has in the
  record the value that the resolver returns for it, under the path with every dot replaced
  by an underscore; and when the output keys of the requested paths differ from each other,
  the keys of the record are these output keys in the order of the paths. The other
  requested paths of the call may be any. The example of the specification is the witness.
\<close>

theorem requested_path_emitted:
  assumes "explicit_mode fields"
    and "data_fields entity j (Some fields) cs unk = Inr (values, unk')"
  shows "(\<forall>f\<in>set fields.
            in_constants cs f = None \<longrightarrow> str_lower f \<noteq> ''private'' \<longrightarrow>
            (\<forall>g\<in>set fields. g \<noteq> f \<longrightarrow> out_key cs g \<noteq> str_replace f) \<longrightarrow>
            dict_get values (str_replace f) = Some (resolver_value j f))
         \<and> (distinct (map (out_key cs) fields) \<longrightarrow> map fst values = map (out_key cs) fields)"
proof -
  from assms have vals: "values = od_update [] (concat (map (writes cs j) fields))"
    by (simp add: data_fields_explicit explicit_loop_eq split: if_splits)
  have per_path: "dict_get values (str_replace f) = Some (resolver_value j f)"
    if f: "f \<in> set fields"
      and nc: "in_constants cs f = None"
      and np: "str_lower f \<noteq> ''private''"
      and na: "\<forall>g\<in>set fields. g \<noteq> f \<longrightarrow> out_key cs g \<noteq> str_replace f"
    for f
  proof -
    let ?k = "str_replace f"
    let ?v = "resolver_value j f"
    from nc np have wf: "writes cs j f = [(?k, ?v)]"
      by (simp add: writes_def resolver_value_eq)
    have blocks: "\<forall>g\<in>set fields. ?k \<notin> fst ` set (writes cs j g)
        \<or> (\<forall>vals0. dict_get (od_update vals0 (writes cs j g)) ?k = Some ?v)"
    proof
      fix g assume g: "g \<in> set fields"
      show "?k \<notin> fst ` set (writes cs j g)
        \<or> (\<forall>vals0. dict_get (od_update vals0 (writes cs j g)) ?k = Some ?v)"
      proof (cases "g = f")
        case True
        with wf show ?thesis
          by (simp add: dict_get_od_set)
      next
        case False
        have "?k \<notin> fst ` set (writes cs j g)"
        proof
          assume "?k \<in> fst ` set (writes cs j g)"
          then have "?k = out_key cs g"
            by (rule writes_keys_out)
          with g False na show False
            by auto
        qed
        then show ?thesis ..
      qed
    qed
    from wf have "?k \<in> fst ` set (writes cs j f)"
      by simp
    with f have "\<exists>g\<in>set fields. ?k \<in> fst ` set (writes cs j g)"
      by blast
    with od_update_blocks [OF blocks, of "[]"] vals show ?thesis
      by simp
  qed
  have order: "map fst values = map (out_key cs) fields"
    if d: "distinct (map (out_key cs) fields)"
  proof -
    have w: "\<forall>g\<in>set fields. writes cs j g \<noteq> []
        \<and> (\<forall>k\<in>fst ` set (writes cs j g). k = out_key cs g)"
    proof (intro ballI conjI)
      fix g
      show "writes cs j g \<noteq> []"
        by (rule writes_nonempty)
    next
      fix g k
      assume "k \<in> fst ` set (writes cs j g)"
      then show "k = out_key cs g"
        by (rule writes_keys_out)
    qed
    from map_fst_od_update_blocks [OF w d, of "[]"] vals show ?thesis
      by simp
  qed
  show ?thesis
    using per_path order by (intro conjI ballI impI)
qed

theorem requested_path_emitted_witness:
  "explicit_mode [''owner.login'', ''name'']
   \<and> data_fields None
        [(''owner'', JObj [(''login'', JStr ''acme'')]), (''name'', JStr ''widgets'')]
        (Some [''owner.login'', ''name'']) None {}
       = Inr ([(''owner_login'', JStr ''acme''), (''name'', JStr ''widgets'')], {})
   \<and> in_constants None ''owner.login'' = None
   \<and> str_lower ''owner.login'' \<noteq> ''private''
   \<and> out_key None ''name'' \<noteq> str_replace ''owner.login''
   \<and> resolver_value
        [(''owner'', JObj [(''login'', JStr ''acme'')]), (''name'', JStr ''widgets'')]
        ''owner.login'' = JStr ''acme''
   \<and> dict_get [(''owner_login'', JStr ''acme''), (''name'', JStr ''widgets'')]
        (str_replace ''owner.login'')
       = Some (resolver_value
                 [(''owner'', JObj [(''login'', JStr ''acme'')]), (''name'', JStr ''widgets'')]
                 ''owner.login'')
   \<and> distinct (map (out_key None) [''owner.login'', ''name''])
   \<and> map fst [(''owner_login'', JStr ''acme''), (''name'', JStr ''widgets'')]
       = map (out_key None) [''owner.login'', ''name'']"
proof -
  let ?j = "[(''owner'', JObj [(''login'', JStr ''acme'')]), (''name'', JStr ''widgets'')]"
  let ?fields = "[''owner.login'', ''name'']"
  let ?r = "[(''owner_login'', JStr ''acme''), (''name'', JStr ''widgets'')]"
  have e: "explicit_mode ?fields"
    by (simp add: explicit_mode_def)
  have d: "data_fields None ?j (Some ?fields) None {} = Inr (?r, {})"
    by (simp add: eval_defs)
  have m: "''owner.login'' \<in> set ?fields"
    by simp
  have c: "in_constants None ''owner.login'' = None"
    by (simp add: in_constants_def)
  have p: "str_lower ''owner.login'' \<noteq> ''private''"
    by (simp add: str_lower_def lower_char_def)
  have a: "out_key None ''name'' \<noteq> str_replace ''owner.login''"
    by (simp add: out_key_def in_constants_def str_replace_def)
  then have a': "\<forall>g\<in>set ?fields. g \<noteq> ''owner.login'' \<longrightarrow> out_key None g \<noteq> str_replace ''owner.login''"
    by simp
  have v: "resolver_value ?j ''owner.login'' = JStr ''acme''"
    by (simp add: resolver_value_def str_count_def resolver_defs)
  have k: "distinct (map (out_key None) ?fields)"
    by (simp add: out_key_def in_constants_def str_replace_def)
  note inst = requested_path_emitted [OF e d]
  from inst [THEN conjunct1, THEN bspec, OF m, THEN mp, OF c, THEN mp, OF p, THEN mp, OF a']
  have g: "dict_get ?r (str_replace ''owner.login'') = Some (resolver_value ?j ''owner.login'')" .
  from inst [THEN conjunct2, THEN mp, OF k]
  have o: "map fst ?r = map (out_key None) ?fields" .
  show ?thesis
    by (intro conjI e d c p a v g k o)
qed

section \<open>Batches\<close>

lemma github_data_loop_explicit:
  assumes "explicit_mode fields"
  shows "github_data_loop e (Some fields) cs items (retval, unk) =
     (if \<exists>item\<in>set items. \<exists>f\<in>set fields. raises_on cs item f then Inl KeyError
      else Inr (retval @ map (\<lambda>item. od_update [] (concat (map (writes cs item) fields))) items,
                unk \<union> set (filter (\<lambda>f. \<exists>item\<in>set items. missing cs item f) fields)))"
proof (induction items arbitrary: retval unk)
  case Nil
  show ?case by simp
next
  case (Cons item items)
  show ?case
  proof (cases "\<exists>f\<in>set fields. raises_on cs item f")
    case True
    with assms show ?thesis
      by (simp add: data_fields_explicit explicit_loop_eq)
  next
    case False
    with assms show ?thesis
      by (auto simp: data_fields_explicit explicit_loop_eq Cons.IH)
  qed
qed

lemma github_data_batch:
  "github_data e f c ds cached api answer unk =
     (case batch_items c ds cached api answer of
        None \<Rightarrow> Inl SystemExit
      | Some items \<Rightarrow> github_data_loop e f c items ([], unk))"
  by (cases cached) (auto simp: github_data_def batch_items_def Let_def)

lemmas batch_defs = aggregate_def github_allpages_def github_data_def cache_update_def

text \<open>
  Claim C9 as it is worded fails in four cases. On an empty batch, and on a path that an
  earlier batch of the same run has recorded, the unknown-field set gains no entry. For a
  path that is a key of the constants the records hold the constant, not \<^verbatim>\<open>None\<close>, and
  nothing is recorded, read from the cache or from the API. And when another requested path has the same output key, the records
  hold the value of that path under it.
\<close>

theorem unresolved_path_batch_counterexample:
  "aggregate None [] (Some [''nosuch'']) None {} = Inr ([], {})
   \<and> aggregate None [[[(''login'', JStr ''octocat'')]]] (Some [''nosuch'']) None {''nosuch''}
       = Inr ([[(''nosuch'', JNull)]], {''nosuch''})
   \<and> github_data None (Some [''org'']) (Some [(''org'', JStr ''acme'')])
        ''c'' (Some [[(''login'', JStr ''octocat'')]]) [] [] {}
       = Inr ([[(''org'', JStr ''acme'')]], {})
   \<and> aggregate None [[[(''login'', JStr ''octocat'')]]] (Some [''org''])
        (Some [(''org'', JStr ''acme'')]) {}
       = Inr ([[(''org'', JStr ''acme'')]], {})
   \<and> aggregate None [[[(''a_b'', JNum 1)]]] (Some [''a.b'', ''a_b'']) None {}
       = Inr ([[(''a_b'', JNum 1)]], {''a.b''})"
  by (simp add: batch_defs eval_defs)

text \<open>
  Claim C9, amended. Take a batch of at least one item, as the loop of \<open>github_data\<close>
  receives them, and a requested path that is not a key of the constants, that resolves in
  none of the items, and whose output key no other requested path is written under. Leave
  aside the batches in which the lookup of line 367 raises, those with an item that lacks a
  requested field named \<^verbatim>\<open>private\<close>. Then \<open>github_data\<close> returns one record per item,
  whatever the unknown-field set held before; each record maps the output key of the path
  to \<^verbatim>\<open>None\<close>; and the set afterwards is the set before together with the requested paths
  that failed to resolve in at least one item. It is a set: the path is in it once, however
  many items there are, and when every other requested path resolves everywhere it is the
  only name added. The set only grows, and the records are the same for every content of
  the set.
\<close>

theorem unresolved_path_batch:
  assumes "batch_items cs datasource cached api answer = Some items"
    and "items \<noteq> []"
    and "explicit_mode fields"
    and "path \<in> set fields"
    and "in_constants cs path = None"
    and "\<forall>item\<in>set items. resolved item path = None"
    and "\<forall>g\<in>set fields. g \<noteq> path \<longrightarrow> out_key cs g \<noteq> str_replace path"
    and "\<forall>item\<in>set items. \<forall>f\<in>set fields. \<not> raises_on cs item f"
  shows "\<exists>recs.
           (\<forall>u. github_data entity (Some fields) cs datasource cached api answer u =
                  Inr (recs, u \<union> set (filter (\<lambda>f. \<exists>item\<in>set items. missing cs item f) fields)))
         \<and> length recs = length items
         \<and> (\<forall>r\<in>set recs. dict_get r (str_replace path) = Some JNull)
         \<and> path \<in> set (filter (\<lambda>f. \<exists>item\<in>set items. missing cs item f) fields)
         \<and> ((\<forall>f\<in>set fields. f \<noteq> path \<longrightarrow> (\<forall>item\<in>set items. \<not> missing cs item f))
              \<longrightarrow> set (filter (\<lambda>f. \<exists>item\<in>set items. missing cs item f) fields) = {path})"
proof -
  let ?rec = "\<lambda>item. od_update [] (concat (map (writes cs item) fields))"
  let ?F = "set (filter (\<lambda>f. \<exists>item\<in>set items. missing cs item f) fields)"
  from assms(8) have no_raise: "\<not> (\<exists>item\<in>set items. \<exists>f\<in>set fields. raises_on cs item f)"
    by simp
  have run: "\<forall>u. github_data entity (Some fields) cs datasource cached api answer u
      = Inr (map ?rec items, u \<union> ?F)"
    using no_raise
    by (simp add: github_data_batch assms(1) github_data_loop_explicit [OF assms(3)])
  have null: "dict_get (?rec item) (str_replace path) = Some JNull"
    if item: "item \<in> set items" for item
  proof -
    from item assms(6) have unres: "resolved item path = None"
      by simp
    have np: "str_lower path \<noteq> ''private''"
    proof
      assume p: "str_lower path = ''private''"
      then have "resolved item path = dict_get item path"
        by (simp add: private_no_dot resolved_nodot)
      with unres assms(5) p have "raises_on cs item path"
        by (simp add: raises_on_def)
      with item assms(4,8) show False
        by blast
    qed
    with assms(5) unres have wp: "writes cs item path = [(str_replace path, JNull)]"
      by (simp add: writes_def null_or_def)
    have blocks: "\<forall>g\<in>set fields. str_replace path \<notin> fst ` set (writes cs item g)
        \<or> (\<forall>vals0. dict_get (od_update vals0 (writes cs item g)) (str_replace path) = Some JNull)"
    proof
      fix g assume g: "g \<in> set fields"
      show "str_replace path \<notin> fst ` set (writes cs item g)
        \<or> (\<forall>vals0. dict_get (od_update vals0 (writes cs item g)) (str_replace path) = Some JNull)"
      proof (cases "g = path")
        case True
        with wp show ?thesis
          by (simp add: dict_get_od_set)
      next
        case False
        have "str_replace path \<notin> fst ` set (writes cs item g)"
        proof
          assume "str_replace path \<in> fst ` set (writes cs item g)"
          then have "str_replace path = out_key cs g"
            by (rule writes_keys_out)
          with g False assms(7) show False
            by auto
        qed
        then show ?thesis ..
      qed
    qed
    from wp have "str_replace path \<in> fst ` set (writes cs item path)"
      by simp
    with assms(4) have "\<exists>g\<in>set fields. str_replace path \<in> fst ` set (writes cs item g)"
      by blast
    with od_update_blocks [OF blocks, of "[]"] show ?thesis
      by simp
  qed
  from assms(2) obtain item0 where "item0 \<in> set items"
    by (cases items) auto
  with assms(5,6) have "\<exists>item\<in>set items. missing cs item path"
    by (auto simp: missing_def)
  with assms(4) have inF: "path \<in> ?F"
    by simp
  have only: "(\<forall>f\<in>set fields. f \<noteq> path \<longrightarrow> (\<forall>item\<in>set items. \<not> missing cs item f))
      \<longrightarrow> ?F = {path}"
    using inF by auto
  from run null inF only show ?thesis
    by (intro exI [of _ "map ?rec items"]) simp
qed

theorem unresolved_path_batch_witness:
  "batch_items (Some [(''org'', JStr ''acme'')]) ''a'' None
     [[(''login'', JStr ''a''), (''private'', JBool False), (''plan'', JNull)],
      [(''login'', JStr ''b''), (''private'', JBool True)]] []
     = Some [[(''login'', JStr ''a''), (''private'', JBool False), (''plan'', JNull),
              (''org'', JStr ''acme'')],
             [(''login'', JStr ''b''), (''private'', JBool True), (''org'', JStr ''acme'')]]
   \<and> [[(''login'', JStr ''a''), (''private'', JBool False), (''plan'', JNull),
         (''org'', JStr ''acme'')],
        [(''login'', JStr ''b''), (''private'', JBool True), (''org'', JStr ''acme'')]] \<noteq> []
   \<and> explicit_mode [''login'', ''private'', ''plan.name'']
   \<and> ''plan.name'' \<in> set [''login'', ''private'', ''plan.name'']
   \<and> in_constants (Some [(''org'', JStr ''acme'')]) ''plan.name'' = None
   \<and> resolved [(''login'', JStr ''a''), (''private'', JBool False), (''plan'', JNull),
                (''org'', JStr ''acme'')] ''plan.name'' = None
   \<and> resolved [(''login'', JStr ''b''), (''private'', JBool True), (''org'', JStr ''acme'')]
        ''plan.name'' = None
   \<and> out_key (Some [(''org'', JStr ''acme'')]) ''login'' \<noteq> str_replace ''plan.name''
   \<and> out_key (Some [(''org'', JStr ''acme'')]) ''private'' \<noteq> str_replace ''plan.name''
   \<and> github_data None (Some [''login'', ''private'', ''plan.name''])
        (Some [(''org'', JStr ''acme'')]) ''a'' None
        [[(''login'', JStr ''a''), (''private'', JBool False), (''plan'', JNull)],
         [(''login'', JStr ''b''), (''private'', JBool True)]] [] {}
       = Inr ([[(''login'', JStr ''a''), (''private'', JStr ''public''), (''plan_name'', JNull)],
               [(''login'', JStr ''b''), (''private'', JStr ''private''), (''plan_name'', JNull)]],
              {''plan.name''})
   \<and> (\<exists>recs. length recs = 2
         \<and> (\<forall>r\<in>set recs. dict_get r (str_replace ''plan.name'') = Some JNull))"
proof -
  let ?cs = "Some [(''org'', JStr ''acme'')]"
  let ?api = "[[(''login'', JStr ''a''), (''private'', JBool False), (''plan'', JNull)],
      [(''login'', JStr ''b''), (''private'', JBool True)]]"
  let ?i1 = "[(''login'', JStr ''a''), (''private'', JBool False), (''plan'', JNull),
              (''org'', JStr ''acme'')]"
  let ?i2 = "[(''login'', JStr ''b''), (''private'', JBool True), (''org'', JStr ''acme'')]"
  let ?fields = "[''login'', ''private'', ''plan.name'']"
  have h1: "batch_items ?cs ''a'' None ?api [] = Some [?i1, ?i2]"
    by (simp add: batch_items_def cache_update_def)
  have h2: "[?i1, ?i2] \<noteq> []"
    by simp
  have h3: "explicit_mode ?fields"
    by (simp add: explicit_mode_def)
  have h4: "''plan.name'' \<in> set ?fields"
    by simp
  have h5: "in_constants ?cs ''plan.name'' = None"
    by (simp add: in_constants_def)
  have r: "resolved ?i1 ''plan.name'' = None" "resolved ?i2 ''plan.name'' = None"
    by (simp_all add: resolved_def)
  then have h6: "\<forall>item\<in>set [?i1, ?i2]. resolved item ''plan.name'' = None"
    by simp
  have a: "out_key ?cs ''login'' \<noteq> str_replace ''plan.name''"
    "out_key ?cs ''private'' \<noteq> str_replace ''plan.name''"
    by (simp_all add: out_key_def in_constants_def str_replace_def)
  then have h7: "\<forall>g\<in>set ?fields. g \<noteq> ''plan.name'' \<longrightarrow> out_key ?cs g \<noteq> str_replace ''plan.name''"
    by simp
  have h8: "\<forall>item\<in>set [?i1, ?i2]. \<forall>f\<in>set ?fields. \<not> raises_on ?cs item f"
    by (simp add: raises_on_def str_lower_def lower_char_def)
  have run: "github_data None (Some ?fields) ?cs ''a'' None ?api [] {}
      = Inr ([[(''login'', JStr ''a''), (''private'', JStr ''public''), (''plan_name'', JNull)],
               [(''login'', JStr ''b''), (''private'', JStr ''private''), (''plan_name'', JNull)]],
              {''plan.name''})"
    by (simp add: batch_defs eval_defs)
  from unresolved_path_batch [OF h1 h2 h3 h4 h5 h6 h7 h8, of None]
  obtain recs where "length recs = length [?i1, ?i2]"
    and n: "\<forall>r\<in>set recs. dict_get r (str_replace ''plan.name'') = Some JNull"
    by (elim exE conjE)
  then have "length recs = 2"
    by simp
  with n have ex: "\<exists>recs. length recs = 2
         \<and> (\<forall>r\<in>set recs. dict_get r (str_replace ''plan.name'') = Some JNull)"
    by (intro exI conjI)
  show ?thesis
    by (intro conjI h1 h2 h3 h4 h5 r a run ex)
qed

text \<open>
  Claim C8 says that the aggregation returns one record per item for every sequence of
  pages. The code does not when the lookup of line 367 raises on an item: the exception
  leaves the loop of \<open>github_data\<close>, and the records of the items before it are lost with
  it. Below, the second page holds an item without the requested field \<^verbatim>\<open>private\<close>.
\<close>

theorem aggregate_aborts_on_absent_private:
  "aggregate None
     [[[(''name'', JStr ''widgets''), (''private'', JBool True)]], [[(''name'', JStr ''gadgets'')]]]
     (Some [''name'', ''private'']) None {} = Inl KeyError"
  by (simp add: batch_defs eval_defs)

text \<open>
  When \<open>data_fields\<close> returns on every item, the loop returns their records, one per
  item and in the order of the items.
\<close>

lemma data_fields_unk:
  "data_fields e j f c u =
     (case data_fields e j f c {} of Inl x \<Rightarrow> Inl x | Inr (v, u') \<Rightarrow> Inr (v, u \<union> u'))"
  by (simp add: data_fields_def explicit_loop_eq Let_def split: list.splits option.splits)

lemma github_data_loop_projected:
  assumes "\<forall>item\<in>set items. projected e f c item \<noteq> None"
  shows "\<exists>unk'. github_data_loop e f c items (retval, unk) =
           Inr (retval @ map (\<lambda>item. the (projected e f c item)) items, unk')"
  using assms
proof (induction items arbitrary: retval unk)
  case Nil
  show ?case by simp
next
  case (Cons item items)
  from Cons.prems obtain r u0 where r: "data_fields e item f c {} = Inr (r, u0)"
    by (auto simp: projected_def split: sum.splits)
  then have p: "projected e f c item = Some r"
    by (simp add: projected_def)
  from r have d: "data_fields e item f c unk = Inr (r, unk \<union> u0)"
    by (subst data_fields_unk) simp
  from Cons.prems have "\<forall>item\<in>set items. projected e f c item \<noteq> None"
    by simp
  from Cons.IH [OF this, of "retval @ [r]" "unk \<union> u0"] d p show ?case
    by simp
qed


section \<open>The wildcard branch\<close>

lemma wild_loop_star: "wild_loop ''*'' j vals = od_update vals j"
  by (induction j arbitrary: vals) (auto split: json.splits)

lemma wild_loop_urls:
  "wild_loop ''urls'' j vals = od_update vals (filter (\<lambda>(k, v). str_endswith k ''url'') j)"
  by (induction j arbitrary: vals) (auto split: json.splits)

lemma wild_loop_nourls:
  "wild_loop ''nourls'' j vals =
     od_update vals
       (map (\<lambda>(k, v). (k, case v of
                           JObj d \<Rightarrow> JObj (filter (\<lambda>(k', v'). \<not> str_endswith k' ''url'') d)
                         | _ \<Rightarrow> v))
          (filter (\<lambda>(k, v). \<not> str_endswith k ''url'') j))"
  by (induction j arbitrary: vals) (auto simp: strip_urls_def split: json.splits)

lemma od_update_distinct: "distinct (map fst c) \<Longrightarrow> od_update [] c = c"
  using od_update_fresh [of c "[]"] by simp

lemma data_fields_wildcard:
  assumes "f0 = ''*'' \<or> f0 = ''urls'' \<or> f0 = ''nourls''"
    and "distinct (map fst (items_of cs))"
  shows "data_fields entity jsondata (Some (f0 # rest)) cs unk =
           Inr (wild_loop f0 jsondata (if f0 = ''urls'' then [] else items_of cs), unk)"
proof (cases cs)
  case None
  with assms(1) show ?thesis
    by (auto simp: data_fields_def items_of_def)
next
  case (Some c)
  with assms(2) have "od_update [] c = c"
    by (simp add: items_of_def od_update_distinct)
  with Some assms(1) show ?thesis
    by (auto simp: data_fields_def items_of_def)
qed

text \<open>
  Claim C4 as it is worded fails when a key of the constants is also a top-level key of the
  payload: the record is a dictionary, so the key is kept once, at the position of the
  constant and with the value of the payload, and the record has fewer than N + C entries.
\<close>

theorem all_fields_key_collision_counterexample:
  "data_fields None [(''login'', JStr ''octocat''), (''org'', JStr ''payload'')]
     (Some [''*'']) (Some [(''org'', JStr ''acme'')]) {}
     = Inr ([(''org'', JStr ''payload''), (''login'', JStr ''octocat'')], {})
   \<and> length [(''org'', JStr ''payload''), (''login'', JStr ''octocat'')]
       \<noteq> length [(''login'', JStr ''octocat''), (''org'', JStr ''payload'')]
         + length [(''org'', JStr ''acme'')]"
  by (simp add: data_fields_def)

text \<open>
  Claim C4, amended. For a payload with N top-level keys and constants with C entries of
  which no key is also a top-level key of the payload, \<open>data_fields\<close> with the marker
  \<^verbatim>\<open>*\<close> as first field returns exactly N + C entries: the constants first, in their own
  order, then the payload's top-level keys in their order, each with its payload value.
  The unknown-field set is unchanged.
\<close>

theorem all_fields_constants_first:
  assumes "distinct (map fst jsondata)"
    and "distinct (map fst (items_of cs))"
    and "fst ` set (items_of cs) \<inter> fst ` set jsondata = {}"
  shows "data_fields entity jsondata (Some (''*'' # rest)) cs unk
           = Inr (items_of cs @ jsondata, unk)
         \<and> length (items_of cs @ jsondata) = length jsondata + length (items_of cs)"
proof -
  have "od_update (items_of cs) jsondata = items_of cs @ jsondata"
    using assms(1,3) by (intro od_update_fresh) auto
  then show ?thesis
    by (simp add: data_fields_wildcard [OF _ assms(2)] wild_loop_star)
qed

theorem all_fields_constants_first_witness:
  "distinct (map fst [(''login'', JStr ''octocat''), (''id'', JNum 1)])
   \<and> distinct (map fst (items_of (Some [(''org'', JStr ''acme'')])))
   \<and> fst ` set (items_of (Some [(''org'', JStr ''acme'')]))
       \<inter> fst ` set [(''login'', JStr ''octocat''), (''id'', JNum 1)] = {}
   \<and> data_fields None [(''login'', JStr ''octocat''), (''id'', JNum 1)]
        (Some [''*'']) (Some [(''org'', JStr ''acme'')]) {}
       = Inr ([(''org'', JStr ''acme''), (''login'', JStr ''octocat''), (''id'', JNum 1)], {})
   \<and> length [(''org'', JStr ''acme''), (''login'', JStr ''octocat''), (''id'', JNum 1)]
       = length [(''login'', JStr ''octocat''), (''id'', JNum 1)]
         + length (items_of (Some [(''org'', JStr ''acme'')]))"
proof -
  let ?j = "[(''login'', JStr ''octocat''), (''id'', JNum 1)]"
  let ?cs = "Some [(''org'', JStr ''acme'')]"
  have a: "distinct (map fst ?j)"
    by simp
  have b: "distinct (map fst (items_of ?cs))"
    by (simp add: items_of_def)
  have c: "fst ` set (items_of ?cs) \<inter> fst ` set ?j = {}"
    by (simp add: items_of_def)
  from all_fields_constants_first [OF a b c, of None "[]" "{}"] a b c show ?thesis
    by (simp add: items_of_def)
qed

lemma map_fst_second: "map fst (map (\<lambda>(k, v). (k, h v)) xs) = map fst xs"
  by (induction xs) auto

text \<open>
  Claim C5 as it is worded fails in the mode \<^verbatim>\<open>nourls\<close> when a key of the constants is
  also a selected key of the payload: the key is kept once, with the payload's value, and
  the constant's entry is not in the record.
\<close>

theorem nourls_key_collision_counterexample:
  "data_fields None
     [(''login'', JStr ''octocat''), (''org'', JStr ''payload''), (''html_url'', JStr ''h'')]
     (Some [''nourls'']) (Some [(''org'', JStr ''acme'')]) {}
     = Inr ([(''org'', JStr ''payload''), (''login'', JStr ''octocat'')], {})
   \<and> data_fields None
     [(''login'', JStr ''octocat''), (''org'', JStr ''payload''), (''html_url'', JStr ''h'')]
     (Some [''nourls'']) (Some [(''org'', JStr ''acme'')]) {}
     \<noteq> Inr ([(''org'', JStr ''acme'')]
             @ [(''login'', JStr ''octocat''), (''org'', JStr ''payload'')], {})"
  by (simp add: data_fields_def str_endswith_def)

text \<open>
  Claim C5, amended. With the marker \<^verbatim>\<open>urls\<close> as first field the record holds exactly
  the top-level items of the payload whose key ends with \<^verbatim>\<open>url\<close>, in their order, and
  no constants. With the marker \<^verbatim>\<open>nourls\<close>, and no key of the constants being a
  top-level key of the payload that does not end with \<^verbatim>\<open>url\<close>, the record holds the
  constants first and then exactly the top-level items whose key does not end with
  \<^verbatim>\<open>url\<close>; a selected value that is a mapping loses its own keys ending with \<^verbatim>\<open>url\<close>,
  and the values inside it are passed through as they are, so that deeper mappings keep
  theirs.
\<close>

theorem url_modes:
  assumes "distinct (map fst jsondata)"
  shows "data_fields entity jsondata (Some (''urls'' # rest)) cs unk
           = Inr (filter (\<lambda>(k, v). str_endswith k ''url'') jsondata, unk)
         \<and> (distinct (map fst (items_of cs)) \<longrightarrow>
            (\<forall>k\<in>fst ` set (items_of cs). k \<in> fst ` set jsondata \<longrightarrow> str_endswith k ''url'') \<longrightarrow>
            data_fields entity jsondata (Some (''nourls'' # rest)) cs unk
              = Inr (items_of cs @
                     map (\<lambda>(k, v). (k, case v of
                                         JObj d \<Rightarrow> JObj (filter (\<lambda>(k', v'). \<not> str_endswith k' ''url'') d)
                                       | _ \<Rightarrow> v))
                       (filter (\<lambda>(k, v). \<not> str_endswith k ''url'') jsondata),
                     unk))"
proof (intro conjI impI)
  let ?urls = "filter (\<lambda>(k, v). str_endswith k ''url'') jsondata"
  from assms have "distinct (map fst ?urls)"
    by (simp add: distinct_map_filter)
  then have "od_update [] ?urls = ?urls"
    by (rule od_update_distinct)
  moreover have "data_fields entity jsondata (Some (''urls'' # rest)) cs unk
      = Inr (wild_loop ''urls'' jsondata [], unk)"
    by (cases cs) (simp_all add: data_fields_def)
  ultimately show "data_fields entity jsondata (Some (''urls'' # rest)) cs unk = Inr (?urls, unk)"
    by (simp add: wild_loop_urls)
next
  let ?strip = "\<lambda>(k, v). (k, case v of
       JObj d \<Rightarrow> JObj (filter (\<lambda>(k', v'). \<not> str_endswith k' ''url'') d) | _ \<Rightarrow> v)"
  let ?sel = "filter (\<lambda>(k, v). \<not> str_endswith k ''url'') jsondata"
  assume dc: "distinct (map fst (items_of cs))"
    and disj: "\<forall>k\<in>fst ` set (items_of cs). k \<in> fst ` set jsondata \<longrightarrow> str_endswith k ''url''"
  have keys: "map fst (map ?strip ?sel) = map fst ?sel"
    by (rule map_fst_second)
  from assms have "distinct (map fst ?sel)"
    by (simp add: distinct_map_filter)
  then have d: "distinct (map fst (map ?strip ?sel))"
    by (simp only: keys)
  have "set (map fst (map ?strip ?sel)) = set (map fst ?sel)"
    by (simp only: keys)
  then have same: "fst ` set (map ?strip ?sel) = fst ` set ?sel"
    by (simp only: set_map)
  have "fst ` set ?sel \<subseteq> {k \<in> fst ` set jsondata. \<not> str_endswith k ''url''}"
    by force
  with disj have "fst ` set ?sel \<inter> fst ` set (items_of cs) = {}"
    by blast
  then have i: "fst ` set (map ?strip ?sel) \<inter> fst ` set (items_of cs) = {}"
    by (simp only: same)
  have "od_update (items_of cs) (map ?strip ?sel) = items_of cs @ map ?strip ?sel"
    using d i by (rule od_update_fresh)
  then show "data_fields entity jsondata (Some (''nourls'' # rest)) cs unk
      = Inr (items_of cs @ map ?strip ?sel, unk)"
    by (simp add: data_fields_wildcard [OF _ dc] wild_loop_nourls)
qed

theorem url_modes_witness:
  "distinct (map fst
     [(''name'', JStr ''widgets''), (''html_url'', JStr ''h''),
      (''owner'', JObj [(''login'', JStr ''acme''), (''url'', JStr ''u''),
                        (''plan'', JObj [(''url'', JStr ''deep'')])])])
   \<and> distinct (map fst (items_of (Some [(''org'', JStr ''acme'')])))
   \<and> ''org'' \<notin> fst ` set
         [(''name'', JStr ''widgets''), (''html_url'', JStr ''h''),
          (''owner'', JObj [(''login'', JStr ''acme''), (''url'', JStr ''u''),
                            (''plan'', JObj [(''url'', JStr ''deep'')])])]
   \<and> data_fields None
        [(''name'', JStr ''widgets''), (''html_url'', JStr ''h''),
         (''owner'', JObj [(''login'', JStr ''acme''), (''url'', JStr ''u''),
                           (''plan'', JObj [(''url'', JStr ''deep'')])])]
        (Some [''urls'']) (Some [(''org'', JStr ''acme'')]) {}
       = Inr ([(''html_url'', JStr ''h'')], {})
   \<and> data_fields None
        [(''name'', JStr ''widgets''), (''html_url'', JStr ''h''),
         (''owner'', JObj [(''login'', JStr ''acme''), (''url'', JStr ''u''),
                           (''plan'', JObj [(''url'', JStr ''deep'')])])]
        (Some [''nourls'']) (Some [(''org'', JStr ''acme'')]) {}
       = Inr ([(''org'', JStr ''acme''), (''name'', JStr ''widgets''),
               (''owner'', JObj [(''login'', JStr ''acme''),
                                 (''plan'', JObj [(''url'', JStr ''deep'')])])], {})"
proof -
  let ?j = "[(''name'', JStr ''widgets''), (''html_url'', JStr ''h''),
      (''owner'', JObj [(''login'', JStr ''acme''), (''url'', JStr ''u''),
                        (''plan'', JObj [(''url'', JStr ''deep'')])])]"
  let ?cs = "Some [(''org'', JStr ''acme'')]"
  have a: "distinct (map fst ?j)"
    by simp
  have b: "distinct (map fst (items_of ?cs))"
    by (simp add: items_of_def)
  have c: "\<forall>k\<in>fst ` set (items_of ?cs). k \<in> fst ` set ?j \<longrightarrow> str_endswith k ''url''"
    by (simp add: items_of_def)
  from url_modes [OF a, of None "[]" ?cs "{}"] a b c show ?thesis
    by (simp add: items_of_def str_endswith_def)
qed

end
